theory Spec2Isabelle
  imports Main
begin

section \<open>Bulk-Subtags: the indentation path enumerator\<close>

text \<open>
  A shallow embedding of the tag helpers of \<^verbatim>\<open>src/__init__.py\<close>:
  \<^verbatim>\<open>replace_spaces_with_underscores\<close>, \<^verbatim>\<open>parse_indentation_level\<close>,
  \<^verbatim>\<open>parse_indented_subtags_enumerate_all\<close> and \<^verbatim>\<open>BulkSubtagDialog.getData\<close>.

  A Python \<^verbatim>\<open>str\<close> is a \<^typ>\<open>string\<close>; a \<^typ>\<open>char\<close> stands for the code point of
  the same number, so the model covers the code points below 256. The counters and the
  indentation sums start at 0 and are only ever increased, so they are \<^typ>\<open>nat\<close>.
  An uncaught Python exception is the \<open>Inl\<close> branch of a sum.
\<close>

subsection \<open>Python built-ins used by the source\<close>

datatype py_error = IndexError

definition SPACE :: char where
  "SPACE = CHR 0x20"

definition TAB :: char where
  "TAB = CHR 0x09"

definition UNDERSCORE :: char where
  "UNDERSCORE = CHR ''_''"

text \<open>
  \<^verbatim>\<open>str.isspace\<close> on one character, for the code points below 256: U+0009 to U+000D,
  U+001C to U+001F, U+0020, U+0085 and U+00A0.
\<close>

definition py_isspace :: "char \<Rightarrow> bool" where
  "py_isspace c =
     (let n = (of_char c :: nat)
      in (9 \<le> n \<and> n \<le> 13) \<or> (28 \<le> n \<and> n \<le> 32) \<or> n = 133 \<or> n = 160)"

text \<open>\<^verbatim>\<open>s.strip()\<close>: whitespace is dropped at both ends.\<close>

definition py_strip :: "string \<Rightarrow> string" where
  "py_strip s = rev (dropWhile py_isspace (rev (dropWhile py_isspace s)))"

text \<open>\<^verbatim>\<open>sep.join(xs)\<close>.\<close>

fun py_join :: "string \<Rightarrow> string list \<Rightarrow> string" where
  "py_join sep [] = []"
| "py_join sep [x] = x"
| "py_join sep (x # y # ys) = x @ sep @ py_join sep (y # ys)"

text \<open>\<^verbatim>\<open>str(n)\<close> for a natural number: its decimal digits.\<close>

definition digit_char :: "nat \<Rightarrow> char" where
  "digit_char d = ''0123456789'' ! d"

fun py_str_nat :: "nat \<Rightarrow> string" where
  "py_str_nat n =
     (if n < 10 then [digit_char n] else py_str_nat (n div 10) @ [digit_char (n mod 10)])"

declare py_str_nat.simps [simp del]

text \<open>The format spec \<^verbatim>\<open>{n:02d}\<close>: the decimal digits, padded with zeros to width 2.\<close>

definition format_02d :: "nat \<Rightarrow> string" where
  "format_02d n = (let s = py_str_nat n in replicate (2 - length s) (CHR ''0'') @ s)"

text \<open>
  \<^verbatim>\<open>s.splitlines()\<close> for the code points below 256: a line ends at LF, CR, CR LF, VT,
  FF, FS, GS, RS or NEL; the terminators are dropped and a final terminator opens no
  further line.
\<close>

definition is_linebreak :: "char \<Rightarrow> bool" where
  "is_linebreak c =
     (let n = (of_char c :: nat)
      in (10 \<le> n \<and> n \<le> 13) \<or> (28 \<le> n \<and> n \<le> 30) \<or> n = 133)"

fun splitlines_from :: "string \<Rightarrow> string \<Rightarrow> string list" where
  "splitlines_from cur [] = (if cur = [] then [] else [cur])"
| "splitlines_from cur (c # cs) =
     (if c = CHR 0x0D then
        (case cs of
           d # ds \<Rightarrow> if d = CHR 0x0A then cur # splitlines_from [] ds
                     else cur # splitlines_from [] cs
         | [] \<Rightarrow> cur # splitlines_from [] cs)
      else if is_linebreak c then cur # splitlines_from [] cs
      else splitlines_from (cur @ [c]) cs)"

definition py_splitlines :: "string \<Rightarrow> string list" where
  "py_splitlines s = splitlines_from [] s"

subsection \<open>replace_spaces_with_underscores\<close>

text \<open>\<^verbatim>\<open>s.replace(" ", "_")\<close>: every space becomes an underscore.\<close>

definition replace_spaces_with_underscores :: "string \<Rightarrow> string" where
  "replace_spaces_with_underscores s = map (\<lambda>ch. if ch = SPACE then UNDERSCORE else ch) s"

subsection \<open>parse_indentation_level\<close>

text \<open>
  The first loop: \<^verbatim>\<open>leading_spaces\<close> grows by 1 for a space and by 4 for a tab, and the
  loop breaks at the first other character.
\<close>

fun count_leading :: "string \<Rightarrow> nat \<Rightarrow> nat" where
  "count_leading [] leading_spaces = leading_spaces"
| "count_leading (ch # rest) leading_spaces =
     (if ch = SPACE then count_leading rest (leading_spaces + 1)
      else if ch = TAB then count_leading rest (leading_spaces + 4)
      else leading_spaces)"

text \<open>
  The second loop runs over the whole line: a space is dropped while
  \<^verbatim>\<open>actual_removed < to_remove\<close>, a tab while \<^verbatim>\<open>actual_removed + 4 <= to_remove\<close>, and
  every other character is appended to \<^verbatim>\<open>new_content\<close>.
\<close>

fun remove_loop :: "nat \<Rightarrow> string \<Rightarrow> nat \<Rightarrow> string \<Rightarrow> string" where
  "remove_loop to_remove [] actual_removed new_content = new_content"
| "remove_loop to_remove (ch # rest) actual_removed new_content =
     (if ch = SPACE \<and> actual_removed < to_remove
        then remove_loop to_remove rest (actual_removed + 1) new_content
      else if ch = TAB \<and> actual_removed + 4 \<le> to_remove
        then remove_loop to_remove rest (actual_removed + 4) new_content
      else remove_loop to_remove rest actual_removed (new_content @ [ch]))"

definition parse_indentation_level :: "string \<Rightarrow> nat \<times> string" where
  "parse_indentation_level line =
     (let leading_spaces = count_leading line 0;
          indent_level = leading_spaces div 4;
          to_remove = leading_spaces;
          new_content = remove_loop to_remove line 0 [];
          content = py_strip new_content
      in (indent_level, content))"

subsection \<open>parse_indented_subtags_enumerate_all\<close>

record enum_state =
  counters :: "nat list"
  levels :: "string option list"
  results :: "string list"

text \<open>
  \<^verbatim>\<open>for i in range(indent_level + 1, len(counters)): counters[i] = 0; levels[i] = None\<close>,
  over the list of indices; an index outside a list raises.
\<close>

fun reset_loop :: "nat list \<Rightarrow> nat list \<Rightarrow> string option list \<Rightarrow>
    py_error + (nat list \<times> string option list)" where
  "reset_loop [] cs ls = Inr (cs, ls)"
| "reset_loop (i # rest) cs ls =
     (if i < length cs \<and> i < length ls then reset_loop rest (cs[i := 0]) (ls[i := None])
      else Inl IndexError)"

text \<open>
  \<^verbatim>\<open>[levels[i] for i in range(indent_level + 1) if levels[i]]\<close>: \<^verbatim>\<open>None\<close> and the empty
  string are both false.
\<close>

definition truthy :: "string option \<Rightarrow> bool" where
  "truthy v = (case v of None \<Rightarrow> False | Some s \<Rightarrow> s \<noteq> [])"

definition path_segments :: "string option list \<Rightarrow> nat \<Rightarrow> string list" where
  "path_segments ls indent_level =
     map (\<lambda>i. the (ls ! i)) (filter (\<lambda>i. truthy (ls ! i)) [0..<indent_level + 1])"

text \<open>One iteration of the main loop.\<close>

definition enum_step :: "enum_state \<Rightarrow> string \<Rightarrow> py_error + enum_state" where
  "enum_step st line =
     (let (indent_level, raw_content) = parse_indentation_level line
      in if py_strip raw_content = [] then Inr st
         else
           (case reset_loop [indent_level + 1..<length (counters st)] (counters st) (levels st) of
              Inl e \<Rightarrow> Inl e
            | Inr (cs, ls) \<Rightarrow>
                if \<not> indent_level < length cs then Inl IndexError
                else
                  let cs' = cs[indent_level := cs ! indent_level + 1];
                      content = replace_spaces_with_underscores raw_content;
                      enumerated_name = format_02d (cs' ! indent_level) @ ''_'' @ content
                  in if \<not> indent_level < length ls then Inl IndexError
                     else
                       let ls' = ls[indent_level := Some enumerated_name];
                           final_path = py_join ''::'' (path_segments ls' indent_level)
                       in Inr \<lparr>counters = cs', levels = ls',
                                results = results st @ [final_path]\<rparr>))"

fun enum_loop :: "enum_state \<Rightarrow> string list \<Rightarrow> py_error + enum_state" where
  "enum_loop st [] = Inr st"
| "enum_loop st (line # rest) =
     (case enum_step st line of Inl e \<Rightarrow> Inl e | Inr st' \<Rightarrow> enum_loop st' rest)"

text \<open>The last loop: a result is kept when it is not in \<^verbatim>\<open>seen\<close> yet.\<close>

fun dedup_loop :: "string list \<Rightarrow> string set \<Rightarrow> string list \<Rightarrow> string list" where
  "dedup_loop [] seen final = final"
| "dedup_loop (r # rs) seen final =
     (if r \<notin> seen then dedup_loop rs (insert r seen) (final @ [r])
      else dedup_loop rs seen final)"

definition init_state :: enum_state where
  "init_state = \<lparr>counters = replicate 50 0, levels = replicate 50 None, results = []\<rparr>"

definition parse_indented_subtags_enumerate_all :: "string list \<Rightarrow> py_error + string list" where
  "parse_indented_subtags_enumerate_all lines =
     (case enum_loop init_state lines of
        Inl e \<Rightarrow> Inl e
      | Inr st \<Rightarrow> Inr (dedup_loop (results st) {} []))"

subsection \<open>BulkSubtagDialog.getData\<close>

text \<open>
  The two widgets are read once: \<open>parent_text\<close> is \<^verbatim>\<open>self.parentTagEdit.text()\<close> and
  \<open>plain_text\<close> is \<^verbatim>\<open>self.subtagsEdit.toPlainText()\<close>.
\<close>

fun prefix_loop :: "string \<Rightarrow> string list \<Rightarrow> string list \<Rightarrow> string list" where
  "prefix_loop parentTag [] final_tags = final_tags"
| "prefix_loop parentTag (path # rest) final_tags =
     (if parentTag \<noteq> [] then prefix_loop parentTag rest (final_tags @ [parentTag @ ''::'' @ path])
      else prefix_loop parentTag rest (final_tags @ [path]))"

definition getData :: "string \<Rightarrow> string \<Rightarrow> py_error + string list" where
  "getData parent_text plain_text =
     (let parentTag = replace_spaces_with_underscores (py_strip parent_text);
          lines = py_splitlines plain_text
      in case parse_indented_subtags_enumerate_all lines of
           Inl e \<Rightarrow> Inl e
         | Inr enumerated_paths \<Rightarrow> Inr (prefix_loop parentTag enumerated_paths []))"

subsection \<open>Notions of the specification\<close>

text \<open>
  The leading whitespace of a line is its longest prefix of spaces and tabs; its weight
  counts 1 for a space and 4 for a tab.
\<close>

definition is_indent_char :: "char \<Rightarrow> bool" where
  "is_indent_char ch = (ch = SPACE \<or> ch = TAB)"

definition leading_weight :: "string \<Rightarrow> nat" where
  "leading_weight line =
     sum_list (map (\<lambda>ch. if ch = SPACE then 1 else 4) (takeWhile is_indent_char line))"

text \<open>
  The entries of a list at the positions where the entry has not occurred before: the
  list without its later duplicates, in the order of first occurrence.
\<close>

definition first_occurrences :: "string list \<Rightarrow> string list" where
  "first_occurrences rs =
     map (\<lambda>i. rs ! i) (filter (\<lambda>i. rs ! i \<notin> set (take i rs)) [0..<length rs])"

text \<open>
  A segment is a counter from 1 on, formatted to two digits at least, an underscore, and
  the content of one of the lines with its spaces replaced; a path is one or more
  segments joined by \<open>::\<close>.
\<close>

definition enumerated_segment :: "string list \<Rightarrow> string \<Rightarrow> bool" where
  "enumerated_segment lines seg =
     (\<exists>k l. 1 \<le> k \<and> l \<in> set lines \<and> snd (parse_indentation_level l) \<noteq> [] \<and>
        seg = format_02d k @ ''_'' @
          replace_spaces_with_underscores (snd (parse_indentation_level l)))"

definition enumerated_path :: "string list \<Rightarrow> string \<Rightarrow> bool" where
  "enumerated_path lines p =
     (\<exists>segs. segs \<noteq> [] \<and> (\<forall>seg\<in>set segs. enumerated_segment lines seg) \<and>
        p = py_join ''::'' segs)"

text \<open>
  The state while the lines are read: both lists keep their 50 entries, every stored name
  is a segment and every result is a path.
\<close>

definition wf_state :: "string list \<Rightarrow> enum_state \<Rightarrow> bool" where
  "wf_state lines st =
     (length (counters st) = 50 \<and> length (levels st) = 50 \<and>
      (\<forall>seg. Some seg \<in> set (levels st) \<longrightarrow> enumerated_segment lines seg) \<and>
      (\<forall>p\<in>set (results st). enumerated_path lines p))"

text \<open>
  A string that starts with a digit, does not end in whitespace and holds no space: read
  as a line, it is at level 0 and is its own content.
\<close>

definition is_digit :: "char \<Rightarrow> bool" where
  "is_digit ch = (ch \<in> set ''0123456789'')"

definition clean_line :: "string \<Rightarrow> bool" where
  "clean_line p = (p \<noteq> [] \<and> is_digit (hd p) \<and> \<not> py_isspace (last p) \<and> SPACE \<notin> set p)"

text \<open>
  The reading of \<open>re-numbered at level 0\<close> in which the counter in front of a path is
  exchanged for the new one.
\<close>

definition renumber_level0 :: "nat \<Rightarrow> string \<Rightarrow> string" where
  "renumber_level0 k p = format_02d k @ dropWhile is_digit p"

text \<open>
  The enumerator as the specification describes it, over the list of lines alone. The
  level of a line is the weight of its leading spaces and tabs divided by 4, its content
  is what is left of it without the leading spaces and tabs and without whitespace at
  either end.
\<close>

definition line_level :: "string \<Rightarrow> nat" where
  "line_level l = leading_weight l div 4"

definition line_content :: "string \<Rightarrow> string" where
  "line_content l =
     rev (dropWhile py_isspace (rev (dropWhile py_isspace (dropWhile is_indent_char l))))"

text \<open>
  A counter up to 99 is written with two digits, the tens and the units; beyond 99 the
  format is left to the implementation, which prints the number in full.
\<close>

definition counter_text :: "nat \<Rightarrow> string" where
  "counter_text k =
     (if k \<le> 99 then [''0123456789'' ! (k div 10), ''0123456789'' ! (k mod 10)]
      else format_02d k)"

definition segment_text :: "nat \<Rightarrow> string \<Rightarrow> string" where
  "segment_text k l =
     counter_text k @ ''_'' @
     map (\<lambda>ch. if ch = CHR 0x20 then CHR ''_'' else ch) (line_content l)"

text \<open>
  The lines read so far, the latest first. The sibling counter of level \<open>n\<close> counts the
  content lines at level \<open>n\<close> since the latest content line at a shallower level; the
  stored segment of level \<open>n\<close> is that of the latest content line at level \<open>n\<close>, unless
  a content line at a shallower level came after it.
\<close>

fun sibling_count :: "nat \<Rightarrow> string list \<Rightarrow> nat" where
  "sibling_count n [] = 0"
| "sibling_count n (l # older) =
     (if line_content l = [] then sibling_count n older
      else if line_level l < n then 0
      else if line_level l = n then Suc (sibling_count n older)
      else sibling_count n older)"

fun stored_segment :: "nat \<Rightarrow> string list \<Rightarrow> string option" where
  "stored_segment n [] = None"
| "stored_segment n (l # older) =
     (if line_content l = [] then stored_segment n older
      else if line_level l < n then None
      else if line_level l = n then Some (segment_text (Suc (sibling_count n older)) l)
      else stored_segment n older)"

text \<open>
  The segments of the path of a content line that comes after the lines \<open>earlier\<close>: the
  stored segments of the levels above its own, in level order, and its own new segment
  with the next sibling counter; the path joins them by \<open>::\<close>.
\<close>

definition expected_segments :: "string list \<Rightarrow> string \<Rightarrow> string list" where
  "expected_segments earlier l =
     List.map_filter (\<lambda>j. stored_segment j (rev earlier)) [0..<line_level l] @
     [segment_text (Suc (sibling_count (line_level l) (rev earlier))) l]"

definition joined :: "string list \<Rightarrow> string" where
  "joined segs =
     (case segs of [] \<Rightarrow> [] | s # rest \<Rightarrow> s @ concat (map (\<lambda>t. ''::'' @ t) rest))"

definition expected_paths :: "string list \<Rightarrow> string list" where
  "expected_paths lines =
     map (\<lambda>i. joined (expected_segments (take i lines) (lines ! i)))
       (filter (\<lambda>i. line_content (lines ! i) \<noteq> []) [0..<length lines])"

text \<open>The state after the lines \<open>earlier\<close> holds what the specification says of them.\<close>

definition tracks :: "string list \<Rightarrow> enum_state \<Rightarrow> bool" where
  "tracks earlier st =
     (length (counters st) = 50 \<and> length (levels st) = 50 \<and>
      (\<forall>j<50. counters st ! j = sibling_count j (rev earlier)) \<and>
      (\<forall>j<50. levels st ! j = stored_segment j (rev earlier)) \<and>
      results st = expected_paths earlier)"

section \<open>Lemmas about the helpers\<close>

subsection \<open>Indentation and content of a line\<close>

lemma SPACE_neq_TAB [simp]: "SPACE \<noteq> TAB" "TAB \<noteq> SPACE"
  by (simp_all add: SPACE_def TAB_def)

lemma count_leading_weight: "count_leading line a = a + leading_weight line"
  by (induction line arbitrary: a) (simp_all add: leading_weight_def is_indent_char_def)

lemma remove_loop_done: "remove_loop t line t acc = acc @ line"
  by (induction line arbitrary: acc) simp_all

lemma remove_loop_leading:
  "remove_loop (a + leading_weight line) line a acc = acc @ dropWhile is_indent_char line"
proof (induction line arbitrary: a acc)
  case Nil
  show ?case by simp
next
  case (Cons ch rest)
  show ?case
  proof (cases "ch = SPACE")
    case True
    have "leading_weight (ch # rest) = 1 + leading_weight rest"
      using True by (simp add: leading_weight_def is_indent_char_def)
    then show ?thesis
      using True Cons.IH [of "a + 1" acc] by (simp add: is_indent_char_def ac_simps)
  next
    case False
    show ?thesis
    proof (cases "ch = TAB")
      case True
      have "leading_weight (ch # rest) = 4 + leading_weight rest"
        using True by (simp add: leading_weight_def is_indent_char_def)
      then show ?thesis
        using True Cons.IH [of "a + 4" acc] by (simp add: is_indent_char_def ac_simps)
    next
      case nt: False
      have "leading_weight (ch # rest) = 0"
        using False nt by (simp add: leading_weight_def is_indent_char_def)
      then show ?thesis
        using False nt by (simp add: is_indent_char_def remove_loop_done)
    qed
  qed
qed

lemma parse_indentation_level_eq:
  "parse_indentation_level line =
     (leading_weight line div 4, py_strip (dropWhile is_indent_char line))"
  using remove_loop_leading [of 0 line "[]"]
  by (simp add: parse_indentation_level_def count_leading_weight)

lemma leading_weight_append:
  "\<forall>ch\<in>set pre. is_indent_char ch \<Longrightarrow>
   leading_weight (pre @ rest) = leading_weight pre + leading_weight rest"
  by (simp add: leading_weight_def takeWhile_append2 takeWhile_eq_all_conv [THEN iffD2])

lemma py_isspace_SPACE [simp]: "py_isspace SPACE"
  by (simp add: py_isspace_def SPACE_def)
lemma py_isspace_TAB [simp]: "py_isspace TAB"
  by (simp add: py_isspace_def TAB_def)

lemma py_strip_prefix: "\<exists>zs. dropWhile py_isspace s = py_strip s @ zs"
proof -
  let ?t = "dropWhile py_isspace s"
  have "rev (takeWhile py_isspace (rev ?t) @ dropWhile py_isspace (rev ?t)) = ?t"
    by (simp only: takeWhile_dropWhile_id rev_rev_ident)
  then have "?t = py_strip s @ rev (takeWhile py_isspace (rev ?t))"
    by (simp only: rev_append py_strip_def)
  then show ?thesis by blast
qed

lemma py_strip_hd: "py_strip s \<noteq> [] \<Longrightarrow> \<not> py_isspace (hd (py_strip s))"
proof -
  assume ne: "py_strip s \<noteq> []"
  obtain zs where z: "dropWhile py_isspace s = py_strip s @ zs"
    using py_strip_prefix by blast
  then have "dropWhile py_isspace s \<noteq> []" using ne by simp
  then have "\<not> py_isspace (hd (dropWhile py_isspace s))" by (rule hd_dropWhile)
  then show ?thesis using z ne by simp
qed

lemma py_strip_last: "py_strip s \<noteq> [] \<Longrightarrow> \<not> py_isspace (last (py_strip s))"
proof -
  assume ne: "py_strip s \<noteq> []"
  let ?u = "dropWhile py_isspace (rev (dropWhile py_isspace s))"
  have u: "py_strip s = rev ?u" by (simp add: py_strip_def)
  then have "?u \<noteq> []" using ne by simp
  then have "\<not> py_isspace (hd ?u)" by (rule hd_dropWhile)
  then show ?thesis using u \<open>?u \<noteq> []\<close> by (simp add: last_rev)
qed

lemma py_strip_clean:
  "s \<noteq> [] \<Longrightarrow> \<not> py_isspace (hd s) \<Longrightarrow> \<not> py_isspace (last s) \<Longrightarrow> py_strip s = s"
proof -
  assume ne: "s \<noteq> []" and h: "\<not> py_isspace (hd s)" and l: "\<not> py_isspace (last s)"
  have 1: "dropWhile py_isspace s = s" using ne h by (cases s) simp_all
  have "rev s \<noteq> []" "\<not> py_isspace (hd (rev s))" using ne l by (simp_all add: hd_rev)
  then have 2: "dropWhile py_isspace (rev s) = rev s" by (cases "rev s") simp_all
  show ?thesis by (simp add: py_strip_def 1 2)
qed

lemma py_strip_all_space: "\<forall>ch\<in>set s. py_isspace ch \<Longrightarrow> py_strip s = []"
  by (simp add: py_strip_def dropWhile_eq_Nil_conv [THEN iffD2])

lemma py_strip_idem: "py_strip (py_strip s) = py_strip s"
proof (cases "py_strip s = []")
  case True
  then show ?thesis by (simp add: py_strip_all_space)
next
  case False
  then show ?thesis by (simp add: py_strip_clean py_strip_hd py_strip_last)
qed


lemma blank_content:
  assumes "\<forall>ch\<in>set line. py_isspace ch"
  shows "snd (parse_indentation_level line) = []"
proof -
  have "\<forall>ch\<in>set (dropWhile is_indent_char line). py_isspace ch"
    using assms by (meson in_mono set_dropWhileD)
  then show ?thesis by (simp add: parse_indentation_level_eq py_strip_all_space)
qed

subsection \<open>One iteration, the loops\<close>

lemma reset_loop_fold:
  "\<forall>i\<in>set idxs. i < length cs \<and> i < length ls \<Longrightarrow>
   reset_loop idxs cs ls =
     Inr (fold (\<lambda>i c. c[i := 0]) idxs cs, fold (\<lambda>i l. l[i := None]) idxs ls)"
  by (induction idxs arbitrary: cs ls) simp_all

lemma length_fold_update [simp]: "length (fold (\<lambda>i c. c[i := v]) idxs xs) = length xs"
  by (induction idxs arbitrary: xs) simp_all

lemma nth_fold_update:
  "j < length xs \<Longrightarrow>
   fold (\<lambda>i c. c[i := v]) idxs xs ! j = (if j \<in> set idxs then v else xs ! j)"
  by (induction idxs arbitrary: xs) (auto simp: nth_list_update)

lemma py_strip_Nil [simp]: "py_strip [] = []"
  by (simp add: py_strip_def)

lemma content_strip [simp]:
  "py_strip (snd (parse_indentation_level line)) = snd (parse_indentation_level line)"
  by (simp add: parse_indentation_level_eq py_strip_idem)

lemma enum_step_blank:
  "snd (parse_indentation_level line) = [] \<Longrightarrow> enum_step st line = Inr st"
  by (simp add: enum_step_def split_beta)

lemma enum_step_too_deep:
  assumes "length (counters st) = 50" and "length (levels st) = 50"
    and "snd (parse_indentation_level line) \<noteq> []"
    and "50 \<le> fst (parse_indentation_level line)"
  shows "enum_step st line = Inl IndexError"
  using assms by (simp add: enum_step_def split_beta)

lemma enum_step_content:
  assumes lc: "length (counters st) = 50" and ll: "length (levels st) = 50"
    and c: "snd (parse_indentation_level line) \<noteq> []"
    and n: "fst (parse_indentation_level line) < 50"
  shows "\<exists>st'. enum_step st line = Inr st'
    \<and> length (counters st') = 50 \<and> length (levels st') = 50
    \<and> (\<forall>j<50. counters st' ! j =
          (if j < fst (parse_indentation_level line) then counters st ! j
           else if j = fst (parse_indentation_level line) then counters st ! j + 1 else 0))
    \<and> (\<forall>j<50. levels st' ! j =
          (if j < fst (parse_indentation_level line) then levels st ! j
           else if j = fst (parse_indentation_level line)
             then Some (format_02d (counters st ! j + 1) @ ''_'' @
                    replace_spaces_with_underscores (snd (parse_indentation_level line)))
           else None))
    \<and> results st' = results st @
          [py_join ''::'' (path_segments (levels st') (fst (parse_indentation_level line)))]"
proof -
  let ?n = "fst (parse_indentation_level line)"
  let ?c = "snd (parse_indentation_level line)"
  let ?cs = "fold (\<lambda>i c. c[i := 0]) [Suc ?n..<50] (counters st)"
  let ?ls = "fold (\<lambda>i l. l[i := None]) [Suc ?n..<50] (levels st)"
  let ?name = "format_02d (?cs ! ?n + 1) @ ''_'' @ replace_spaces_with_underscores ?c"
  let ?cs' = "?cs[?n := ?cs ! ?n + 1]"
  let ?ls' = "?ls[?n := Some ?name]"
  let ?st' = "\<lparr>counters = ?cs', levels = ?ls',
      results = results st @ [py_join ''::'' (path_segments ?ls' ?n)]\<rparr>"
  have r: "reset_loop [Suc ?n..<50] (counters st) (levels st) = Inr (?cs, ?ls)"
    by (rule reset_loop_fold) (simp add: lc ll)
  have step: "enum_step st line = Inr ?st'"
    using c n by (simp add: enum_step_def split_beta lc ll r Let_def)
  have csn: "?cs ! ?n = counters st ! ?n"
    using n by (simp add: nth_fold_update lc)
  have cnt: "\<forall>j<50. ?cs' ! j =
      (if j < ?n then counters st ! j else if j = ?n then counters st ! j + 1 else 0)"
    using n by (auto simp: nth_list_update nth_fold_update lc)
  have lvl: "\<forall>j<50. ?ls' ! j =
      (if j < ?n then levels st ! j
       else if j = ?n then Some (format_02d (counters st ! j + 1) @ ''_'' @
              replace_spaces_with_underscores ?c)
       else None)"
    using n csn by (auto simp: nth_list_update nth_fold_update ll)
  show ?thesis
    using step cnt lvl by (intro exI [of _ ?st']) (simp add: lc ll)
qed

lemma enum_loop_append:
  "enum_loop st (xs @ ys) =
     (case enum_loop st xs of Inl e \<Rightarrow> Inl e | Inr st' \<Rightarrow> enum_loop st' ys)"
  by (induction xs arbitrary: st) (simp_all split: sum.splits)

lemma enum_step_lengths:
  assumes "length (counters st) = 50" and "length (levels st) = 50"
    and "enum_step st line = Inr st'"
  shows "length (counters st') = 50 \<and> length (levels st') = 50"
proof (cases "snd (parse_indentation_level line) = []")
  case True
  then show ?thesis using assms by (simp add: enum_step_blank)
next
  case False
  show ?thesis
  proof (cases "fst (parse_indentation_level line) < 50")
    case True
    then show ?thesis using enum_step_content [OF assms(1,2) False True] assms(3) by auto
  next
    case False
    then show ?thesis
      using enum_step_too_deep [OF assms(1,2) \<open>snd (parse_indentation_level line) \<noteq> []\<close>] assms(3)
      by simp
  qed
qed

lemma enum_loop_succeeds:
  assumes "length (counters st) = 50" and "length (levels st) = 50"
    and "\<forall>l\<in>set lines. snd (parse_indentation_level l) \<noteq> [] \<longrightarrow>
           fst (parse_indentation_level l) < 50"
  shows "\<exists>st'. enum_loop st lines = Inr st'"
  using assms
proof (induction lines arbitrary: st)
  case Nil
  show ?case by simp
next
  case (Cons line rest)
  have "\<exists>st1. enum_step st line = Inr st1"
  proof (cases "snd (parse_indentation_level line) = []")
    case True
    then show ?thesis by (simp add: enum_step_blank)
  next
    case False
    then have "fst (parse_indentation_level line) < 50" using Cons.prems(3) by simp
    then show ?thesis using enum_step_content [OF Cons.prems(1,2) False] by blast
  qed
  then obtain st1 where s: "enum_step st line = Inr st1" by blast
  have "length (counters st1) = 50 \<and> length (levels st1) = 50"
    using enum_step_lengths [OF Cons.prems(1,2) s] .
  then obtain st' where "enum_loop st1 rest = Inr st'"
    using Cons.IH [of st1] Cons.prems(3) by auto
  then show ?case using s by simp
qed

lemma enum_loop_results_length:
  assumes "length (counters st) = 50" and "length (levels st) = 50"
    and "enum_loop st lines = Inr st'"
  shows "length (results st') =
    length (results st) + length (filter (\<lambda>l. snd (parse_indentation_level l) \<noteq> []) lines)"
  using assms
proof (induction lines arbitrary: st)
  case Nil
  then show ?case by simp
next
  case (Cons line rest)
  obtain st1 where s: "enum_step st line = Inr st1" and r: "enum_loop st1 rest = Inr st'"
    using Cons.prems(3) by (auto split: sum.splits)
  have len: "length (counters st1) = 50" "length (levels st1) = 50"
    using enum_step_lengths [OF Cons.prems(1,2) s] by simp_all
  have ih: "length (results st') = length (results st1) +
      length (filter (\<lambda>l. snd (parse_indentation_level l) \<noteq> []) rest)"
    using Cons.IH [OF len r] .
  show ?case
  proof (cases "snd (parse_indentation_level line) = []")
    case True
    then have "st1 = st" using s by (simp add: enum_step_blank)
    then show ?thesis using ih True by simp
  next
    case False
    have "fst (parse_indentation_level line) < 50"
    proof (rule ccontr)
      assume "\<not> fst (parse_indentation_level line) < 50"
      then have "enum_step st line = Inl IndexError"
        using enum_step_too_deep [OF Cons.prems(1,2) False] by simp
      then show False using s by simp
    qed
    then have "length (results st1) = length (results st) + 1"
      using enum_step_content [OF Cons.prems(1,2) False] s by auto
    then show ?thesis using ih False by simp
  qed
qed

lemma init_lengths [simp]:
  "length (counters init_state) = 50" "length (levels init_state) = 50"
  "results init_state = []"
  by (simp_all add: init_state_def)

lemma dedup_loop_first:
  "dedup_loop rs seen final =
     final @ map (\<lambda>i. rs ! i)
       (filter (\<lambda>i. rs ! i \<notin> seen \<and> rs ! i \<notin> set (take i rs)) [0..<length rs])"
proof (induction rs arbitrary: seen final)
  case Nil
  show ?case by simp
next
  case (Cons r rs)
  have idx: "[0..<length (r # rs)] = 0 # map Suc [0..<length rs]"
    by (simp add: upt_conv_Cons map_Suc_upt del: upt_Suc)
  show ?case
  proof (cases "r \<in> seen")
    case True
    have "filter (\<lambda>i. rs ! i \<notin> seen \<and> rs ! i \<notin> set (take i rs)) [0..<length rs] =
        filter (\<lambda>i. rs ! i \<notin> seen \<and> rs ! i \<noteq> r \<and> rs ! i \<notin> set (take i rs)) [0..<length rs]"
      using True by (intro filter_cong) auto
    then show ?thesis
      using True by (simp only: idx) (simp add: Cons.IH filter_map comp_def)
  next
    case False
    have "filter (\<lambda>i. rs ! i \<notin> insert r seen \<and> rs ! i \<notin> set (take i rs)) [0..<length rs] =
        filter (\<lambda>i. rs ! i \<notin> seen \<and> rs ! i \<noteq> r \<and> rs ! i \<notin> set (take i rs)) [0..<length rs]"
      by (intro filter_cong) auto
    then show ?thesis
      using False by (simp only: idx) (simp add: Cons.IH filter_map comp_def)
  qed
qed

lemma dedup_loop_distinct:
  "distinct final \<Longrightarrow> set final \<subseteq> seen \<Longrightarrow> distinct (dedup_loop rs seen final)"
proof (induction rs arbitrary: seen final)
  case Nil
  then show ?case by simp
next
  case (Cons r rs)
  show ?case
  proof (cases "r \<in> seen")
    case True
    then show ?thesis using Cons.IH [OF Cons.prems] by simp
  next
    case False
    have "distinct (final @ [r])" "set (final @ [r]) \<subseteq> insert r seen"
      using False Cons.prems by auto
    then have "distinct (dedup_loop rs (insert r seen) (final @ [r]))" by (rule Cons.IH)
    then show ?thesis using False by simp
  qed
qed

lemma dedup_loop_id:
  "distinct rs \<Longrightarrow> set rs \<inter> seen = {} \<Longrightarrow> dedup_loop rs seen final = final @ rs"
  by (induction rs arbitrary: seen final) auto

lemma prefix_loop_bare: "prefix_loop [] paths acc = acc @ paths"
  by (induction paths arbitrary: acc) simp_all

lemma prefix_loop_parent:
  "parent \<noteq> [] \<Longrightarrow>
   prefix_loop parent paths acc = acc @ map (\<lambda>path. parent @ ''::'' @ path) paths"
  by (induction paths arbitrary: acc) simp_all

subsection \<open>Segments and paths\<close>

lemma is_digit_props:
  "is_digit ch \<Longrightarrow> ch \<noteq> SPACE \<and> ch \<noteq> TAB \<and> ch \<noteq> UNDERSCORE \<and> \<not> py_isspace ch"
  by (auto simp: is_digit_def SPACE_def TAB_def UNDERSCORE_def py_isspace_def)

lemma is_digit_digit_char: "d < 10 \<Longrightarrow> is_digit (digit_char d)"
  by (simp add: is_digit_def digit_char_def del: set_simps)

lemma py_str_nat_digits: "py_str_nat n \<noteq> [] \<and> (\<forall>ch\<in>set (py_str_nat n). is_digit ch)"
proof (induction n rule: py_str_nat.induct)
  case (1 n)
  show ?case
  proof (cases "n < 10")
    case True
    then show ?thesis by (simp add: py_str_nat.simps [of n] is_digit_digit_char)
  next
    case False
    then show ?thesis
      using "1.IH" by (simp add: py_str_nat.simps [of n] is_digit_digit_char)
  qed
qed

lemma format_02d_digits: "format_02d n \<noteq> [] \<and> (\<forall>ch\<in>set (format_02d n). is_digit ch)"
proof -
  have z: "is_digit (CHR ''0'')" by (simp add: is_digit_def)
  show ?thesis
    using py_str_nat_digits [of n] z by (auto simp: format_02d_def Let_def)
qed

lemma format_02d_two_digits:
  "k < 100 \<Longrightarrow> format_02d k = [digit_char (k div 10), digit_char (k mod 10)]"
proof (cases "k < 10")
  case True
  then show ?thesis
    by (simp add: format_02d_def py_str_nat.simps [of k] digit_char_def)
next
  case False
  assume "k < 100"
  then have "k div 10 < 10" by simp
  then show ?thesis
    using False
    by (simp add: format_02d_def py_str_nat.simps [of k] py_str_nat.simps [of "k div 10"])
qed

lemma replace_no_space [simp]: "SPACE \<notin> set (replace_spaces_with_underscores s)"
  by (auto simp: replace_spaces_with_underscores_def SPACE_def UNDERSCORE_def)

lemma replace_Nil_iff [simp]: "replace_spaces_with_underscores s = [] \<longleftrightarrow> s = []"
  by (simp add: replace_spaces_with_underscores_def)

lemma replace_id: "SPACE \<notin> set s \<Longrightarrow> replace_spaces_with_underscores s = s"
  by (induction s) (auto simp: replace_spaces_with_underscores_def)

lemma content_last:
  "snd (parse_indentation_level l) \<noteq> [] \<Longrightarrow>
   \<not> py_isspace (last (snd (parse_indentation_level l)))"
  by (simp add: parse_indentation_level_eq py_strip_last)

lemma replace_last:
  assumes "s \<noteq> []" and "\<not> py_isspace (last s)"
  shows "\<not> py_isspace (last (replace_spaces_with_underscores s))"
proof -
  have "last s \<noteq> SPACE" using assms(2) by auto
  then have "last (replace_spaces_with_underscores s) = last s"
    using assms(1) by (simp add: replace_spaces_with_underscores_def last_map)
  then show ?thesis using assms(2) by simp
qed

lemma segment_clean:
  assumes "c \<noteq> []" and "\<not> py_isspace (last c)"
  shows "clean_line (format_02d k @ ''_'' @ replace_spaces_with_underscores c)"
proof -
  have f: "format_02d k \<noteq> []" "\<forall>ch\<in>set (format_02d k). is_digit ch"
    using format_02d_digits [of k] by simp_all
  have h: "is_digit (hd (format_02d k))" using f by (cases "format_02d k") simp_all
  have s: "SPACE \<notin> set (format_02d k)" using f(2) is_digit_props by blast
  have l: "\<not> py_isspace (last (replace_spaces_with_underscores c))"
    using assms by (rule replace_last)
  have u: "SPACE \<notin> set ''_''" by (simp add: SPACE_def)
  show ?thesis
    using f(1) h s l u assms(1) by (simp add: clean_line_def)
qed

lemma enumerated_segment_clean:
  assumes "enumerated_segment lines seg"
  shows "clean_line seg"
proof -
  obtain k l where c: "snd (parse_indentation_level l) \<noteq> []"
    and seg: "seg = format_02d k @ ''_'' @
      replace_spaces_with_underscores (snd (parse_indentation_level l))"
    using assms unfolding enumerated_segment_def by blast
  show ?thesis unfolding seg using c content_last [OF c] by (rule segment_clean)
qed

lemma join_clean:
  "segs \<noteq> [] \<Longrightarrow> \<forall>seg\<in>set segs. clean_line seg \<Longrightarrow> clean_line (py_join ''::'' segs)"
proof (induction "''::''" segs rule: py_join.induct)
  case 1
  then show ?case by simp
next
  case (2 x)
  then show ?case by simp
next
  case (3 x y ys)
  have r: "clean_line (py_join ''::'' (y # ys))" using 3 by simp
  have x: "clean_line x" using 3 by simp
  show ?case using r x by (auto simp: clean_line_def SPACE_def)
qed

lemma enumerated_path_clean:
  assumes "enumerated_path lines p"
  shows "clean_line p"
proof -
  obtain segs where ne: "segs \<noteq> []"
    and all: "\<forall>seg\<in>set segs. enumerated_segment lines seg"
    and p: "p = py_join ''::'' segs"
    using assms unfolding enumerated_path_def by blast
  have "\<forall>seg\<in>set segs. clean_line seg"
    using all enumerated_segment_clean by blast
  then show ?thesis unfolding p using ne by (intro join_clean)
qed

lemma clean_line_parse:
  assumes "clean_line p"
  shows "parse_indentation_level p = (0, p)"
proof -
  obtain ch rest where p: "p = ch # rest" using assms by (cases p) (auto simp: clean_line_def)
  have d: "is_digit ch" using assms p by (simp add: clean_line_def)
  have ni: "\<not> is_indent_char ch" using is_digit_props [OF d] by (simp add: is_indent_char_def)
  have w: "leading_weight p = 0" using p ni by (simp add: leading_weight_def)
  have dw: "dropWhile is_indent_char p = p" using p ni by simp
  have "py_strip p = p"
    using assms is_digit_props [OF d] p by (intro py_strip_clean) (auto simp: clean_line_def)
  then show ?thesis by (simp add: parse_indentation_level_eq w dw)
qed

lemma path_segments_last:
  assumes "n < length ls" and "ls ! n = Some name" and "name \<noteq> []"
  shows "path_segments ls n =
    map (\<lambda>i. the (ls ! i)) (filter (\<lambda>i. truthy (ls ! i)) [0..<n]) @ [name]"
  using assms by (simp add: path_segments_def truthy_def)

subsection \<open>The state while the lines are read\<close>

lemma wf_state_init: "wf_state lines init_state"
  by (simp add: wf_state_def init_state_def)

lemma wf_state_step:
  assumes wf: "wf_state lines st" and mem: "line \<in> set lines"
    and step: "enum_step st line = Inr st'"
  shows "wf_state lines st'"
proof (cases "snd (parse_indentation_level line) = []")
  case True
  then show ?thesis using wf step by (simp add: enum_step_blank)
next
  case False
  let ?n = "fst (parse_indentation_level line)"
  let ?name = "format_02d (counters st ! ?n + 1) @ ''_'' @
      replace_spaces_with_underscores (snd (parse_indentation_level line))"
  have lc: "length (counters st) = 50" and ll: "length (levels st) = 50"
    using wf by (simp_all add: wf_state_def)
  have n: "?n < 50"
  proof (rule ccontr)
    assume "\<not> ?n < 50"
    then have "enum_step st line = Inl IndexError"
      using enum_step_too_deep [OF lc ll False] by simp
    then show False using step by simp
  qed
  from enum_step_content [OF lc ll False n] step
  have lc': "length (counters st') = 50" and ll': "length (levels st') = 50"
    and lv: "\<forall>j<50. levels st' ! j =
        (if j < ?n then levels st ! j else if j = ?n then Some ?name else None)"
    and rs: "results st' = results st @ [py_join ''::'' (path_segments (levels st') ?n)]"
    by auto
  have name: "enumerated_segment lines ?name"
    using mem False by (auto simp: enumerated_segment_def)
  have segs: "enumerated_segment lines seg" if sm: "Some seg \<in> set (levels st')" for seg
  proof -
    obtain j where j: "j < 50" "levels st' ! j = Some seg"
      using sm ll' in_set_conv_nth [of "Some seg" "levels st'"] by auto
    show ?thesis
    proof (cases "j < ?n")
      case True
      then have "levels st ! j = Some seg" using lv j by simp
      then have "Some seg \<in> set (levels st)"
        using j(1) ll nth_mem [of j "levels st"] by simp
      then show ?thesis using wf by (simp add: wf_state_def)
    next
      case False
      then have "seg = ?name" using lv j by (auto split: if_splits)
      then show ?thesis using name by simp
    qed
  qed
  have "\<forall>seg\<in>set (path_segments (levels st') ?n). enumerated_segment lines seg"
  proof
    fix seg assume "seg \<in> set (path_segments (levels st') ?n)"
    then have "seg \<in> (\<lambda>i. the (levels st' ! i)) `
        {i \<in> {0..<?n + 1}. truthy (levels st' ! i)}"
      by (simp only: path_segments_def set_map set_filter set_upt)
    then obtain i where "i \<in> {i \<in> {0..<?n + 1}. truthy (levels st' ! i)}"
      and "seg = the (levels st' ! i)"
      by blast
    then have i: "i \<le> ?n" "truthy (levels st' ! i)" "seg = the (levels st' ! i)"
      by simp_all
    then have "levels st' ! i = Some seg" by (auto simp: truthy_def split: option.splits)
    then have "Some seg \<in> set (levels st')"
      using i(1) n ll' nth_mem [of i "levels st'"] by simp
    then show "enumerated_segment lines seg" by (rule segs)
  qed
  moreover have "path_segments (levels st') ?n \<noteq> []"
    using path_segments_last [of ?n "levels st'" ?name] n ll' lv by simp
  ultimately have "enumerated_path lines (py_join ''::'' (path_segments (levels st') ?n))"
    by (auto simp: enumerated_path_def)
  moreover have "\<forall>p\<in>set (results st). enumerated_path lines p"
    using wf by (simp add: wf_state_def)
  ultimately have "\<forall>p\<in>set (results st'). enumerated_path lines p"
    by (simp add: rs)
  then show ?thesis
    unfolding wf_state_def using segs lc' ll' by blast
qed

lemma wf_state_loop:
  "wf_state lines st \<Longrightarrow> set ls \<subseteq> set lines \<Longrightarrow> enum_loop st ls = Inr st' \<Longrightarrow>
   wf_state lines st'"
proof (induction ls arbitrary: st)
  case Nil
  then show ?case by simp
next
  case (Cons l ls)
  obtain st1 where s: "enum_step st l = Inr st1" and r: "enum_loop st1 ls = Inr st'"
    using Cons.prems(3) by (auto split: sum.splits)
  have "wf_state lines st1" using Cons.prems(1,2) s by (auto intro: wf_state_step)
  then show ?case using Cons.IH [of st1] Cons.prems(2) r by simp
qed

lemma output_paths:
  assumes "parse_indented_subtags_enumerate_all lines = Inr out" and "p \<in> set out"
  shows "enumerated_path lines p"
proof -
  obtain st where st: "enum_loop init_state lines = Inr st"
    and out: "out = dedup_loop (results st) {} []"
    using assms(1) by (auto simp: parse_indented_subtags_enumerate_all_def split: sum.splits)
  have "wf_state lines st" using wf_state_loop [OF wf_state_init _ st] by simp
  moreover have "set out \<subseteq> set (results st)"
    unfolding out by (auto simp: dedup_loop_first)
  ultimately show ?thesis using assms(2) by (auto simp: wf_state_def)
qed

lemma reachable_wf:
  "enum_loop init_state earlier = Inr st \<Longrightarrow> wf_state earlier st"
  using wf_state_loop [OF wf_state_init, of earlier earlier st] by simp

lemma wf_truthy:
  assumes "wf_state lines st" and "i < 50"
  shows "truthy (levels st ! i) \<longleftrightarrow> levels st ! i \<noteq> None"
proof (cases "levels st ! i")
  case None
  then show ?thesis by (simp add: truthy_def)
next
  case (Some seg)
  have "Some seg \<in> set (levels st)"
    using assms Some nth_mem [of i "levels st"] by (simp add: wf_state_def)
  then have "clean_line seg"
    using assms(1) enumerated_segment_clean by (auto simp: wf_state_def)
  then show ?thesis using Some by (simp add: truthy_def clean_line_def)
qed

lemma format_02d_1: "format_02d (Suc 0) = ''01''"
  by code_simp


subsection \<open>Lines at level 0\<close>

lemma path_segments_alone:
  assumes "n < length ls" and "ls ! n = Some name" and "name \<noteq> []"
    and "\<forall>i<n. ls ! i = None"
  shows "path_segments ls n = [name]"
proof -
  have "filter (\<lambda>i. truthy (ls ! i)) [0..<n] = []"
    using assms(4) by (simp add: filter_empty_conv truthy_def)
  then show ?thesis using path_segments_last [OF assms(1-3)] by simp
qed

lemma enum_step_level0:
  assumes lc: "length (counters st) = 50" and ll: "length (levels st) = 50"
    and cl: "clean_line p"
  shows "\<exists>st'. enum_step st p = Inr st' \<and> length (counters st') = 50 \<and>
    length (levels st') = 50 \<and> counters st' ! 0 = counters st ! 0 + 1 \<and>
    results st' = results st @ [format_02d (counters st ! 0 + 1) @ ''_'' @ p]"
proof -
  have pp: "parse_indentation_level p = (0, p)" using cl by (rule clean_line_parse)
  have ne: "p \<noteq> []" and ns: "SPACE \<notin> set p" using cl by (simp_all add: clean_line_def)
  have c: "snd (parse_indentation_level p) \<noteq> []" using pp ne by simp
  have n: "fst (parse_indentation_level p) < 50" using pp by simp
  have "\<exists>st'. enum_step st p = Inr st'"
    using enum_step_content [OF lc ll c n] by (elim exE conjE) (rule exI)
  then obtain st' where step: "enum_step st p = Inr st'" ..
  from enum_step_content [OF lc ll c n] step
  have lc': "length (counters st') = 50" and ll': "length (levels st') = 50"
    and cn: "counters st' ! 0 = counters st ! 0 + 1"
    and lv: "levels st' ! 0 = Some (format_02d (counters st ! 0 + 1) @ ''_'' @ p)"
    and rs: "results st' = results st @ [py_join ''::'' (path_segments (levels st') 0)]"
    by (auto simp: pp replace_id [OF ns])
  have "path_segments (levels st') 0 = [format_02d (counters st ! 0 + 1) @ ''_'' @ p]"
    using ll' lv by (intro path_segments_alone) simp_all
  then show ?thesis using step lc' ll' cn rs by simp
qed

lemma enum_loop_level0:
  assumes "length (counters st) = 50" and "length (levels st) = 50"
    and "\<forall>p\<in>set ps. clean_line p"
  shows "\<exists>st'. enum_loop st ps = Inr st' \<and>
    results st' = results st @
      map (\<lambda>i. format_02d (counters st ! 0 + (i + 1)) @ ''_'' @ ps ! i) [0..<length ps]"
  using assms
proof (induction ps arbitrary: st)
  case Nil
  then show ?case by simp
next
  case (Cons p ps)
  have cl: "clean_line p" using Cons.prems(3) by simp
  obtain st1 where s1: "enum_step st p = Inr st1"
    and l1: "length (counters st1) = 50" "length (levels st1) = 50"
    and c1: "counters st1 ! 0 = counters st ! 0 + 1"
    and r1: "results st1 = results st @ [format_02d (counters st ! 0 + 1) @ ''_'' @ p]"
    using enum_step_level0 [OF Cons.prems(1,2) cl] by blast
  have "\<forall>q\<in>set ps. clean_line q" using Cons.prems(3) by simp
  from Cons.IH [OF l1 this] obtain st' where s': "enum_loop st1 ps = Inr st'"
    and r': "results st' = results st1 @
      map (\<lambda>i. format_02d (counters st1 ! 0 + (i + 1)) @ ''_'' @ ps ! i) [0..<length ps]"
    by blast
  have idx: "[0..<length (p # ps)] = 0 # map Suc [0..<length ps]"
    by (simp add: upt_conv_Cons map_Suc_upt del: upt_Suc)
  have "results st' = results st @
      map (\<lambda>i. format_02d (counters st ! 0 + (i + 1)) @ ''_'' @ (p # ps) ! i)
        [0..<length (p # ps)]"
    by (simp only: idx) (simp add: r' r1 c1 comp_def)
  then show ?case using s1 s' by simp
qed

lemma counter_separator:
  assumes "\<forall>ch\<in>set d. is_digit ch" and "\<forall>ch\<in>set e. is_digit ch"
    and "d @ ''_'' @ p = e @ ''_'' @ q"
  shows "p = q"
proof -
  have u: "\<not> is_digit (CHR ''_'')" by (simp add: is_digit_def)
  have "dropWhile is_digit (d @ ''_'' @ p) = ''_'' @ p"
    using assms(1) u by (simp add: dropWhile_append2)
  moreover have "dropWhile is_digit (e @ ''_'' @ q) = ''_'' @ q"
    using assms(2) u by (simp add: dropWhile_append2)
  ultimately show ?thesis using assms(3) by simp
qed

lemma renumbered_distinct:
  assumes "distinct out"
  shows "distinct (map (\<lambda>i. format_02d (k + (i + 1)) @ ''_'' @ out ! i) [0..<length out])"
proof -
  have "inj_on (\<lambda>i. format_02d (k + (i + 1)) @ ''_'' @ out ! i) (set [0..<length out])"
  proof (rule inj_onI)
    fix i j
    assume i: "i \<in> set [0..<length out]" and j: "j \<in> set [0..<length out]"
      and eq: "format_02d (k + (i + 1)) @ ''_'' @ out ! i =
        format_02d (k + (j + 1)) @ ''_'' @ out ! j"
    have "out ! i = out ! j"
    proof (rule counter_separator)
      show "\<forall>ch\<in>set (format_02d (k + (i + 1))). is_digit ch"
        using format_02d_digits [of "k + (i + 1)"] by (rule conjunct2)
      show "\<forall>ch\<in>set (format_02d (k + (j + 1))). is_digit ch"
        using format_02d_digits [of "k + (j + 1)"] by (rule conjunct2)
      show "format_02d (k + (i + 1)) @ ''_'' @ out ! i =
          format_02d (k + (j + 1)) @ ''_'' @ out ! j"
        by (rule eq)
    qed
    then show "i = j" using assms i j by (simp add: nth_eq_iff_index_eq)
  qed
  then show ?thesis by (simp add: distinct_map)
qed


subsection \<open>The state follows the specification\<close>

lemma parse_spec: "parse_indentation_level l = (line_level l, line_content l)"
  by (simp add: parse_indentation_level_eq line_level_def line_content_def py_strip_def)

lemma format_counter: "format_02d k = counter_text k"
  using format_02d_two_digits [of k] by (simp add: counter_text_def digit_char_def)

lemma segment_name:
  "format_02d k @ ''_'' @ replace_spaces_with_underscores (line_content l) = segment_text k l"
  by (simp add: segment_text_def format_counter replace_spaces_with_underscores_def
      SPACE_def UNDERSCORE_def)

lemma py_join_joined: "py_join ''::'' segs = joined segs"
  by (induction "''::''" segs rule: py_join.induct) (simp_all add: joined_def)

lemma segment_text_nonempty [simp]: "segment_text k l \<noteq> []"
  by (simp add: segment_text_def)

lemma stored_segment_nonempty: "stored_segment n older = Some s \<Longrightarrow> s \<noteq> []"
  by (induction older) (auto split: if_splits)

lemma stored_segment_truthy: "truthy (stored_segment n older) \<longleftrightarrow> stored_segment n older \<noteq> None"
  by (cases "stored_segment n older") (auto simp: truthy_def dest: stored_segment_nonempty)

lemma expected_paths_snoc:
  "expected_paths (earlier @ [l]) =
     expected_paths earlier @
       (if line_content l = [] then [] else [joined (expected_segments earlier l)])"
proof -
  have f: "filter (\<lambda>i. line_content ((earlier @ [l]) ! i) \<noteq> []) [0..<length earlier] =
      filter (\<lambda>i. line_content (earlier ! i) \<noteq> []) [0..<length earlier]"
    by (rule filter_cong [OF refl]) (simp add: nth_append)
  have m: "map (\<lambda>i. joined (expected_segments (take i (earlier @ [l])) ((earlier @ [l]) ! i)))
        (filter (\<lambda>i. line_content (earlier ! i) \<noteq> []) [0..<length earlier]) =
      map (\<lambda>i. joined (expected_segments (take i earlier) (earlier ! i)))
        (filter (\<lambda>i. line_content (earlier ! i) \<noteq> []) [0..<length earlier])"
    by (rule map_cong [OF refl]) (auto simp: nth_append)
  have split: "[0..<length (earlier @ [l])] = [0..<length earlier] @ [length earlier]"
    by simp
  show ?thesis
    unfolding expected_paths_def split filter_append map_append f m by simp
qed

lemma tracks_init: "tracks [] init_state"
  by (simp add: tracks_def init_state_def expected_paths_def)

lemma tracks_step:
  assumes tr: "tracks earlier st" and step: "enum_step st l = Inr st'"
  shows "tracks (earlier @ [l]) st'"
proof (cases "line_content l = []")
  case True
  then have "st' = st" using step enum_step_blank [of l st] by (simp add: parse_spec)
  then show ?thesis
    using tr True by (simp add: tracks_def expected_paths_snoc)
next
  case False
  let ?n = "line_level l"
  let ?E = "rev earlier"
  let ?name = "segment_text (Suc (sibling_count ?n ?E)) l"
  have lc: "length (counters st) = 50" and ll: "length (levels st) = 50"
    and cs: "\<forall>j<50. counters st ! j = sibling_count j ?E"
    and ls: "\<forall>j<50. levels st ! j = stored_segment j ?E"
    and rs: "results st = expected_paths earlier"
    using tr by (simp_all add: tracks_def)
  have c: "snd (parse_indentation_level l) \<noteq> []" using False by (simp add: parse_spec)
  have n: "?n < 50"
  proof (rule ccontr)
    assume "\<not> ?n < 50"
    then have "enum_step st l = Inl IndexError"
      using enum_step_too_deep [OF lc ll c] by (simp add: parse_spec)
    then show False using step by simp
  qed
  have n': "fst (parse_indentation_level l) < 50" using n by (simp add: parse_spec)
  from enum_step_content [OF lc ll c n'] step
  have lc': "length (counters st') = 50" and ll': "length (levels st') = 50"
    and cs': "\<forall>j<50. counters st' ! j =
        (if j < ?n then counters st ! j else if j = ?n then counters st ! j + 1 else 0)"
    and ls': "\<forall>j<50. levels st' ! j =
        (if j < ?n then levels st ! j
         else if j = ?n then Some (format_02d (counters st ! j + 1) @ ''_'' @
                replace_spaces_with_underscores (line_content l))
         else None)"
    and rs': "results st' = results st @ [py_join ''::'' (path_segments (levels st') ?n)]"
    by (auto simp: parse_spec)
  have nm: "format_02d (counters st ! ?n + 1) @ ''_'' @
      replace_spaces_with_underscores (line_content l) = ?name"
    using segment_name [of "Suc (sibling_count ?n ?E)" l] cs n by simp
  have cnt: "counters st' ! j = sibling_count j (rev (earlier @ [l]))" if "j < 50" for j
    using cs' cs that False by simp
  have lvl: "levels st' ! j = stored_segment j (rev (earlier @ [l]))" if "j < 50" for j
  proof (cases "j = ?n")
    case True
    then show ?thesis using ls' that nm False by simp
  next
    case ne: False
    then show ?thesis using ls' ls that False by simp
  qed
  have name: "levels st' ! ?n = Some ?name" using lvl [OF n] False by simp
  have ps: "path_segments (levels st') ?n =
      map (\<lambda>i. the (levels st' ! i)) (filter (\<lambda>i. truthy (levels st' ! i)) [0..<?n]) @ [?name]"
    using n ll' name by (intro path_segments_last) simp_all
  have below: "levels st' ! i = stored_segment i ?E" if "i < ?n" for i
    using ls' ls that n by simp
  have f: "filter (\<lambda>i. truthy (levels st' ! i)) [0..<?n] =
      filter (\<lambda>i. stored_segment i ?E \<noteq> None) [0..<?n]"
    by (rule filter_cong [OF refl]) (simp add: below stored_segment_truthy)
  have m: "map (\<lambda>i. the (levels st' ! i)) (filter (\<lambda>i. stored_segment i ?E \<noteq> None) [0..<?n]) =
      map (the \<circ> (\<lambda>i. stored_segment i ?E)) (filter (\<lambda>i. stored_segment i ?E \<noteq> None) [0..<?n])"
    by (rule map_cong [OF refl]) (simp add: below)
  have "path_segments (levels st') ?n = expected_segments earlier l"
    by (simp only: ps f m map_filter_def expected_segments_def)
  then have "results st' = expected_paths (earlier @ [l])"
    using rs rs' False by (simp add: expected_paths_snoc py_join_joined)
  then show ?thesis
    unfolding tracks_def using lc' ll' cnt lvl by blast
qed

lemma tracks_loop: "enum_loop init_state lines = Inr st \<Longrightarrow> tracks lines st"
proof (induction lines arbitrary: st rule: rev_induct)
  case Nil
  then show ?case using tracks_init by simp
next
  case (snoc l earlier)
  from snoc.prems obtain st0 where r: "enum_loop init_state earlier = Inr st0"
    and s: "enum_step st0 l = Inr st"
    by (auto simp: enum_loop_append split: sum.splits)
  show ?case using tracks_step [OF snoc.IH [OF r] s] .
qed

section \<open>The worked scenario\<close>

text \<open>
  C1 (as the code behaves): for the lines \<open>Main Tag\<close>, \<open>Sub One\<close> and \<open>Sub Two\<close> indented
  by four spaces, and \<open>Second Main\<close>, the levels are 0, 1, 1, 0 and the enumerator returns
  four paths: every content line yields a path, the top-level line \<open>Main Tag\<close> included.
\<close>

theorem scenario_four_paths:
  "map (fst \<circ> parse_indentation_level)
     [''Main Tag'', ''    Sub One'', ''    Sub Two'', ''Second Main''] = [0, 1, 1, 0]
   \<and> parse_indented_subtags_enumerate_all
     [''Main Tag'', ''    Sub One'', ''    Sub Two'', ''Second Main''] =
     Inr [''01_Main_Tag'', ''01_Main_Tag::01_Sub_One'', ''01_Main_Tag::02_Sub_Two'',
          ''02_Second_Main'']"
  by code_simp

text \<open>
  C1 as the specification states it, with three paths only, does not hold: the path
  \<open>01_Main_Tag\<close> of the first line is part of the result.
\<close>

theorem scenario_three_paths_counterexample:
  "parse_indented_subtags_enumerate_all
     [''Main Tag'', ''    Sub One'', ''    Sub Two'', ''Second Main''] \<noteq>
     Inr [''01_Main_Tag::01_Sub_One'', ''01_Main_Tag::02_Sub_Two'', ''02_Second_Main'']"
  by code_simp

section \<open>The indentation level\<close>

text \<open>
  C5: the indentation level of a line is the weight of its leading spaces and tabs (1 for
  a space, 4 for a tab, up to the first other character) divided by 4, rounding down; and
  a tab in the leading whitespace (first, or after any run of spaces and tabs) gives the
  same level as four spaces in its place.
\<close>

theorem indentation_level_weighted:
  "fst (parse_indentation_level line) = leading_weight line div 4
   \<and> fst (parse_indentation_level (TAB # rest)) =
     fst (parse_indentation_level (replicate 4 SPACE @ rest))
   \<and> fst (parse_indentation_level (takeWhile is_indent_char pre @ TAB # rest)) =
     fst (parse_indentation_level (takeWhile is_indent_char pre @ replicate 4 SPACE @ rest))"
proof -
  have tab: "leading_weight (TAB # rest) = leading_weight (replicate 4 SPACE @ rest)"
    by (simp add: leading_weight_def is_indent_char_def numeral_eq_Suc)
  have "\<forall>ch\<in>set (takeWhile is_indent_char pre). is_indent_char ch"
    by (auto dest: set_takeWhileD)
  then have "leading_weight (takeWhile is_indent_char pre @ TAB # rest) =
      leading_weight (takeWhile is_indent_char pre @ replicate 4 SPACE @ rest)"
    by (simp only: leading_weight_append tab)
  then show ?thesis by (simp add: parse_indentation_level_eq tab)
qed

section \<open>De-duplication\<close>

text \<open>
  C2: the output has no duplicate entries, and it consists of the produced paths at the
  positions of their first occurrence, in that order; a path produced again later is
  dropped.
\<close>

theorem output_first_occurrences:
  assumes "parse_indented_subtags_enumerate_all lines = Inr out"
  shows "distinct out
    \<and> (\<exists>st. enum_loop init_state lines = Inr st \<and> out = first_occurrences (results st))"
proof -
  obtain st where st: "enum_loop init_state lines = Inr st"
    and out: "out = dedup_loop (results st) {} []"
    using assms by (auto simp: parse_indented_subtags_enumerate_all_def split: sum.splits)
  have "distinct out"
    unfolding out by (rule dedup_loop_distinct) simp_all
  moreover have "out = first_occurrences (results st)"
    unfolding out by (simp add: dedup_loop_first first_occurrences_def)
  ultimately show ?thesis using st by blast
qed

theorem output_first_occurrences_witness:
  "parse_indented_subtags_enumerate_all [''    X'', ''X'', ''Y''] = Inr [''01_X'', ''02_Y'']
   \<and> distinct [''01_X'', ''02_Y'']
   \<and> (\<exists>st. enum_loop init_state [''    X'', ''X'', ''Y''] = Inr st
          \<and> results st = [''01_X'', ''01_X'', ''02_Y'']
          \<and> first_occurrences (results st) = [''01_X'', ''02_Y''])"
proof -
  have h: "parse_indented_subtags_enumerate_all [''    X'', ''X'', ''Y''] =
      Inr [''01_X'', ''02_Y'']"
    by code_simp
  have r: "map_sum id results (enum_loop init_state [''    X'', ''X'', ''Y'']) =
      Inr [''01_X'', ''01_X'', ''02_Y'']"
    by code_simp
  from output_first_occurrences [OF h] obtain st
    where d: "distinct [''01_X'', ''02_Y'']"
      and st: "enum_loop init_state [''    X'', ''X'', ''Y''] = Inr st"
      and f: "[''01_X'', ''02_Y''] = first_occurrences (results st)"
    by blast
  have "results st = [''01_X'', ''01_X'', ''02_Y'']" using r st by simp
  then show ?thesis using h d st f by metis
qed

section \<open>Failure modes\<close>

text \<open>
  C3 (as the code behaves): when every content line has an indentation level below 50, the
  enumerator raises no error, whatever the lines hold: a line without content is skipped
  at any depth, and every content line adds one path. So 50 levels of depth, 0 to 49, are
  supported.
\<close>

theorem accepts_levels_below_50:
  assumes "\<forall>l\<in>set lines. snd (parse_indentation_level l) \<noteq> [] \<longrightarrow>
             fst (parse_indentation_level l) < 50"
  shows "\<exists>out st. parse_indented_subtags_enumerate_all lines = Inr out
    \<and> enum_loop init_state lines = Inr st
    \<and> length (results st) =
        length (filter (\<lambda>l. snd (parse_indentation_level l) \<noteq> []) lines)"
proof -
  obtain st where st: "enum_loop init_state lines = Inr st"
    using enum_loop_succeeds [of init_state lines] assms by auto
  have "length (results st) =
      length (filter (\<lambda>l. snd (parse_indentation_level l) \<noteq> []) lines)"
    using enum_loop_results_length [OF _ _ st] by simp
  then show ?thesis using st by (simp add: parse_indented_subtags_enumerate_all_def)
qed

theorem accepts_levels_below_50_witness:
  "map (fst \<circ> parse_indentation_level) (map (\<lambda>i. replicate (4 * i) SPACE @ ''x'') [0..<50])
     = [0..<50]
   \<and> (\<exists>out st. parse_indented_subtags_enumerate_all
         (map (\<lambda>i. replicate (4 * i) SPACE @ ''x'') [0..<50]) = Inr out
       \<and> enum_loop init_state (map (\<lambda>i. replicate (4 * i) SPACE @ ''x'') [0..<50]) = Inr st
       \<and> length (results st) = 50)"
proof -
  have h: "\<forall>l\<in>set (map (\<lambda>i. replicate (4 * i) SPACE @ ''x'') [0..<50]).
      snd (parse_indentation_level l) \<noteq> [] \<longrightarrow> fst (parse_indentation_level l) < 50"
    by code_simp
  have l: "map (fst \<circ> parse_indentation_level)
      (map (\<lambda>i. replicate (4 * i) SPACE @ ''x'') [0..<50]) = [0..<50]"
    by code_simp
  have n: "length (filter (\<lambda>l. snd (parse_indentation_level l) \<noteq> [])
      (map (\<lambda>i. replicate (4 * i) SPACE @ ''x'') [0..<50])) = 50"
    by code_simp
  show ?thesis using accepts_levels_below_50 [OF h] l unfolding n by blast
qed

text \<open>
  C3 as the specification states it, for every line sequence, does not hold: a content
  line behind 200 spaces is at level 50, outside the 50 counters.
\<close>

theorem level_50_counterexample:
  "parse_indented_subtags_enumerate_all [replicate 200 SPACE @ ''x''] = Inl IndexError"
  by code_simp

section \<open>Blank lines\<close>

text \<open>
  C6: a line of whitespace only, put at any position of the input, leaves the result of
  the enumerator unchanged; the iteration for such a line returns the state as it was, so
  no counter and no stored segment name changes and no path is produced.
\<close>

theorem blank_line_ignored:
  assumes "\<forall>ch\<in>set blank. py_isspace ch"
  shows "parse_indented_subtags_enumerate_all (xs @ blank # ys) =
      parse_indented_subtags_enumerate_all (xs @ ys)
    \<and> enum_step st blank = Inr st"
proof -
  have b: "enum_step s blank = Inr s" for s
    using assms by (simp add: enum_step_blank blank_content)
  have "enum_loop init_state (xs @ blank # ys) = enum_loop init_state (xs @ ys)"
    by (simp add: enum_loop_append b split: sum.splits)
  then show ?thesis by (simp add: parse_indented_subtags_enumerate_all_def b)
qed

theorem blank_line_ignored_witness:
  "list_all py_isspace [SPACE, SPACE, TAB, CHR 0x0C, SPACE]
   \<and> parse_indented_subtags_enumerate_all
       ([''A''] @ [SPACE, SPACE, TAB, CHR 0x0C, SPACE] # [''    B'']) =
     Inr [''01_A'', ''01_A::01_B'']
   \<and> parse_indented_subtags_enumerate_all ([''A''] @ [''    B'']) =
     Inr [''01_A'', ''01_A::01_B'']
   \<and> enum_step init_state [SPACE, SPACE, TAB, CHR 0x0C, SPACE] = Inr init_state"
proof -
  have h: "\<forall>ch\<in>set [SPACE, SPACE, TAB, CHR 0x0C, SPACE]. py_isspace ch"
    by code_simp
  have a: "list_all py_isspace [SPACE, SPACE, TAB, CHR 0x0C, SPACE]"
    by code_simp
  have r: "parse_indented_subtags_enumerate_all ([''A''] @ [''    B'']) =
      Inr [''01_A'', ''01_A::01_B'']"
    by code_simp
  show ?thesis
    using blank_line_ignored [OF h, of "[''A'']" "[''    B'']" init_state] a r
    by (simp only: simp_thms)
qed

section \<open>The parent tag\<close>

text \<open>
  C7: with the parent tag stripped and its spaces replaced by underscores, \<open>getData\<close>
  returns every path of the enumerator behind the parent tag and \<open>::\<close> when the parent tag
  is not empty, and the paths themselves when it is empty.
\<close>

theorem getData_parent_prefix:
  assumes "parse_indented_subtags_enumerate_all (py_splitlines plain_text) = Inr paths"
  shows "getData parent_text plain_text =
      Inr (if replace_spaces_with_underscores (py_strip parent_text) = [] then paths
           else map (\<lambda>path. replace_spaces_with_underscores (py_strip parent_text) @ ''::'' @ path)
                  paths)"
proof (cases "replace_spaces_with_underscores (py_strip parent_text) = []")
  case True
  then show ?thesis
    using assms prefix_loop_bare [of paths "[]"] by (simp add: getData_def del: replace_Nil_iff)
next
  case False
  then show ?thesis
    using assms prefix_loop_parent [OF False, of paths "[]"]
    by (simp add: getData_def del: replace_Nil_iff)
qed

theorem getData_parent_prefix_witness:
  "parse_indented_subtags_enumerate_all (py_splitlines (''a'' @ [CHR 0x0A] @ ''    b'')) =
     Inr [''01_a'', ''01_a::01_b'']
   \<and> getData '' my tag '' (''a'' @ [CHR 0x0A] @ ''    b'') =
     Inr [''my_tag::01_a'', ''my_tag::01_a::01_b'']
   \<and> getData ''  '' (''a'' @ [CHR 0x0A] @ ''    b'') = Inr [''01_a'', ''01_a::01_b'']"
proof -
  have h: "parse_indented_subtags_enumerate_all
      (py_splitlines (''a'' @ [CHR 0x0A] @ ''    b'')) = Inr [''01_a'', ''01_a::01_b'']"
    by code_simp
  have p1: "replace_spaces_with_underscores (py_strip '' my tag '') = ''my_tag''"
    by code_simp
  have p2: "replace_spaces_with_underscores (py_strip ''  '') = []"
    by code_simp
  show ?thesis
    using getData_parent_prefix [OF h, of "'' my tag ''"]
      getData_parent_prefix [OF h, of "''  ''"] h
    by (simp add: p1 p2)
qed

section \<open>Skipped ancestor levels\<close>

text \<open>
  C4: after any lines that were read without error, a content line at a level below 50
  raises no error, whatever ancestors are stored, and its path is made of the names
  stored at the levels above it, in level order, each level that holds no stored name
  (never recorded, or reset since) left out, followed by the line's own new segment.
\<close>

theorem deeper_line_path:
  assumes run: "enum_loop init_state earlier = Inr st"
    and c: "snd (parse_indentation_level line) \<noteq> []"
    and n: "fst (parse_indentation_level line) < 50"
  shows "\<exists>st'. enum_step st line = Inr st' \<and>
    results st' = results st @
      [py_join ''::''
        (List.map_filter (\<lambda>i. levels st ! i) [0..<fst (parse_indentation_level line)] @
         [format_02d (counters st ! fst (parse_indentation_level line) + 1) @ ''_'' @
          replace_spaces_with_underscores (snd (parse_indentation_level line))])]"
proof -
  let ?n = "fst (parse_indentation_level line)"
  let ?name = "format_02d (counters st ! ?n + 1) @ ''_'' @
      replace_spaces_with_underscores (snd (parse_indentation_level line))"
  have wf: "wf_state earlier st" using run by (rule reachable_wf)
  then have lc: "length (counters st) = 50" and ll: "length (levels st) = 50"
    by (simp_all add: wf_state_def)
  have "\<exists>st'. enum_step st line = Inr st'"
    using enum_step_content [OF lc ll c n] by (elim exE conjE) (rule exI)
  then obtain st' where step: "enum_step st line = Inr st'" ..
  from enum_step_content [OF lc ll c n] step
  have ll': "length (levels st') = 50"
    and lv: "\<forall>j<50. levels st' ! j =
        (if j < ?n then levels st ! j else if j = ?n then Some ?name else None)"
    and rs: "results st' = results st @ [py_join ''::'' (path_segments (levels st') ?n)]"
    by auto
  have name: "levels st' ! ?n = Some ?name" using lv n by simp
  have ne: "?name \<noteq> []" by simp
  have ps: "path_segments (levels st') ?n =
      map (\<lambda>i. the (levels st' ! i)) (filter (\<lambda>i. truthy (levels st' ! i)) [0..<?n]) @ [?name]"
    using n ll' name ne by (intro path_segments_last) simp_all
  have same: "levels st' ! i = levels st ! i" if "i < ?n" for i
    using lv n that by simp
  have tr: "truthy (levels st' ! i) \<longleftrightarrow> levels st ! i \<noteq> None" if "i < ?n" for i
  proof -
    have "i < 50" using that n by simp
    then show ?thesis using wf_truthy [OF wf, of i] same [OF that] by simp
  qed
  have f: "filter (\<lambda>i. truthy (levels st' ! i)) [0..<?n] =
      filter (\<lambda>i. levels st ! i \<noteq> None) [0..<?n]"
    by (rule filter_cong [OF refl]) (simp add: tr)
  have m: "map (\<lambda>i. the (levels st' ! i)) (filter (\<lambda>i. levels st ! i \<noteq> None) [0..<?n]) =
      map (the \<circ> (\<lambda>i. levels st ! i)) (filter (\<lambda>i. levels st ! i \<noteq> None) [0..<?n])"
    by (rule map_cong [OF refl]) (simp add: same)
  have "path_segments (levels st') ?n =
      List.map_filter (\<lambda>i. levels st ! i) [0..<?n] @ [?name]"
    by (simp only: ps f m map_filter_def)
  then show ?thesis using step rs by simp
qed


theorem deeper_line_path_witness:
  "(\<exists>st st'. enum_loop init_state [''A''] = Inr st
      \<and> enum_step st ''        C'' = Inr st'
      \<and> results st' = [''01_A'', ''01_A::01_C''])
   \<and> (\<exists>st st'. enum_loop init_state [''A'', ''    B'', ''C''] = Inr st
      \<and> enum_step st ''        D'' = Inr st'
      \<and> results st' = [''01_A'', ''01_A::01_B'', ''02_C'', ''02_C::01_D''])"
proof -
  have k1: "case enum_loop init_state [''A''] of Inl e \<Rightarrow> False
      | Inr st \<Rightarrow> results st = [''01_A''] \<and> levels st ! 0 = Some ''01_A''
          \<and> levels st ! Suc 0 = None \<and> counters st ! 2 = 0"
    by code_simp
  then obtain st1 where s1: "enum_loop init_state [''A''] = Inr st1"
    and r1: "results st1 = [''01_A'']" "levels st1 ! 0 = Some ''01_A''"
      "levels st1 ! Suc 0 = None" "counters st1 ! 2 = 0"
    by (auto split: sum.splits)
  have p1: "parse_indentation_level ''        C'' = (2, ''C'')" by code_simp
  have c1: "snd (parse_indentation_level ''        C'') \<noteq> []"
    and n1: "fst (parse_indentation_level ''        C'') < 50"
    by (simp_all add: p1)
  have u: "replace_spaces_with_underscores ''C'' = ''C''"
    "replace_spaces_with_underscores ''D'' = ''D''"
    by code_simp+
  have upt2: "[0..<2] = [0, Suc 0]" by (simp add: upt_rec)
  from deeper_line_path [OF s1 c1 n1] obtain st1'
    where "enum_step st1 ''        C'' = Inr st1'"
      and "results st1' = [''01_A'', ''01_A::01_C'']"
    by (auto simp: p1 r1 u upt2 List.map_filter_simps format_02d_1)
  then have first: "\<exists>st st'. enum_loop init_state [''A''] = Inr st
      \<and> enum_step st ''        C'' = Inr st'
      \<and> results st' = [''01_A'', ''01_A::01_C'']"
    using s1 by blast
  have k2: "case enum_loop init_state [''A'', ''    B'', ''C''] of Inl e \<Rightarrow> False
      | Inr st \<Rightarrow> results st = [''01_A'', ''01_A::01_B'', ''02_C'']
          \<and> levels st ! 0 = Some ''02_C'' \<and> levels st ! Suc 0 = None \<and> counters st ! 2 = 0"
    by code_simp
  then obtain st2 where s2: "enum_loop init_state [''A'', ''    B'', ''C''] = Inr st2"
    and r2: "results st2 = [''01_A'', ''01_A::01_B'', ''02_C'']"
      "levels st2 ! 0 = Some ''02_C''" "levels st2 ! Suc 0 = None" "counters st2 ! 2 = 0"
    by (auto split: sum.splits)
  have p2: "parse_indentation_level ''        D'' = (2, ''D'')" by code_simp
  have c2: "snd (parse_indentation_level ''        D'') \<noteq> []"
    and n2: "fst (parse_indentation_level ''        D'') < 50"
    by (simp_all add: p2)
  from deeper_line_path [OF s2 c2 n2] obtain st2'
    where "enum_step st2 ''        D'' = Inr st2'"
      and "results st2' = [''01_A'', ''01_A::01_B'', ''02_C'', ''02_C::01_D'']"
    by (auto simp: p2 r2 u upt2 List.map_filter_simps format_02d_1)
  then have "\<exists>st st'. enum_loop init_state [''A'', ''    B'', ''C''] = Inr st
      \<and> enum_step st ''        D'' = Inr st'
      \<and> results st' = [''01_A'', ''01_A::01_B'', ''02_C'', ''02_C::01_D'']"
    using s2 by blast
  then show ?thesis using first by blast
qed

section \<open>The format of a segment\<close>

text \<open>
  C8: the output is the list of the expected paths without later duplicates, one path for
  each content line in input order. The segments of a path are given one by one: for
  each level above the line's own, the segment of the latest content line at that level
  unless a shallower content line came after it, and then the line's own segment. A
  segment is the sibling counter of its line (the number of content lines at that level
  since the latest shallower content line, this one included), written with exactly two
  digits up to 99 and in full beyond, an underscore, and the line without its leading
  spaces and tabs and without whitespace at either end, every space replaced by an
  underscore. Any number of siblings is accepted: the enumerator returns a result
  whenever every content line is at a level below 50.
\<close>

theorem segment_format:
  "(parse_indented_subtags_enumerate_all lines = Inr out \<longrightarrow>
      out = first_occurrences (expected_paths lines))
   \<and> ((\<forall>l\<in>set lines. line_content l \<noteq> [] \<longrightarrow> line_level l < 50) \<longrightarrow>
        (\<exists>res. parse_indented_subtags_enumerate_all lines = Inr res))"
proof (rule conjI)
  show "parse_indented_subtags_enumerate_all lines = Inr out \<longrightarrow>
      out = first_occurrences (expected_paths lines)"
  proof
    assume run: "parse_indented_subtags_enumerate_all lines = Inr out"
    then obtain st where st: "enum_loop init_state lines = Inr st"
      and out: "out = dedup_loop (results st) {} []"
      by (auto simp: parse_indented_subtags_enumerate_all_def split: sum.splits)
    have "results st = expected_paths lines"
      using tracks_loop [OF st] by (simp add: tracks_def)
    then show "out = first_occurrences (expected_paths lines)"
      unfolding out by (simp add: dedup_loop_first first_occurrences_def)
  qed
next
  show "(\<forall>l\<in>set lines. line_content l \<noteq> [] \<longrightarrow> line_level l < 50) \<longrightarrow>
      (\<exists>res. parse_indented_subtags_enumerate_all lines = Inr res)"
  proof
    assume "\<forall>l\<in>set lines. line_content l \<noteq> [] \<longrightarrow> line_level l < 50"
    then obtain st where "enum_loop init_state lines = Inr st"
      using enum_loop_succeeds [of init_state lines] by (auto simp: parse_spec)
    then show "\<exists>res. parse_indented_subtags_enumerate_all lines = Inr res"
      by (simp add: parse_indented_subtags_enumerate_all_def)
  qed
qed

theorem segment_format_witness:
  "parse_indented_subtags_enumerate_all
     [''Main Tag  '', TAB # ''Sub One'', ''    Sub  Two '', ''        Deep'', ''Second'',
      ''        Far''] =
     Inr [''01_Main_Tag'', ''01_Main_Tag::01_Sub_One'', ''01_Main_Tag::02_Sub__Two'',
          ''01_Main_Tag::02_Sub__Two::01_Deep'', ''02_Second'', ''02_Second::01_Far'']
   \<and> first_occurrences (expected_paths
     [''Main Tag  '', TAB # ''Sub One'', ''    Sub  Two '', ''        Deep'', ''Second'',
      ''        Far'']) =
     [''01_Main_Tag'', ''01_Main_Tag::01_Sub_One'', ''01_Main_Tag::02_Sub__Two'',
      ''01_Main_Tag::02_Sub__Two::01_Deep'', ''02_Second'', ''02_Second::01_Far'']
   \<and> expected_segments [''Main Tag  '', TAB # ''Sub One'', ''    Sub  Two '']
       ''        Deep'' = [''01_Main_Tag'', ''02_Sub__Two'', ''01_Deep'']
   \<and> parse_indented_subtags_enumerate_all (replicate 100 ''a b'') =
     Inr (map (\<lambda>k. format_02d k @ ''_a_b'') [1..<101])
   \<and> first_occurrences (expected_paths (replicate 100 ''a b'')) =
     map (\<lambda>k. format_02d k @ ''_a_b'') [1..<101]
   \<and> format_02d 7 = ''07'' \<and> format_02d 99 = ''99'' \<and> format_02d 100 = ''100''
   \<and> (\<exists>res. parse_indented_subtags_enumerate_all (replicate 100 ''a b'') = Inr res)"
proof -
  let ?L = "[''Main Tag  '', TAB # ''Sub One'', ''    Sub  Two '', ''        Deep'', ''Second'',
      ''        Far'']"
  let ?P = "[''01_Main_Tag'', ''01_Main_Tag::01_Sub_One'', ''01_Main_Tag::02_Sub__Two'',
      ''01_Main_Tag::02_Sub__Two::01_Deep'', ''02_Second'', ''02_Second::01_Far'']"
  have h1: "parse_indented_subtags_enumerate_all ?L = Inr ?P"
    by code_simp
  have e1: "first_occurrences (expected_paths ?L) = ?P"
    using segment_format [of ?L ?P] h1 by simp
  have s1: "expected_segments [''Main Tag  '', TAB # ''Sub One'', ''    Sub  Two '']
      ''        Deep'' = [''01_Main_Tag'', ''02_Sub__Two'', ''01_Deep'']"
    by code_simp
  have h: "parse_indented_subtags_enumerate_all (replicate 100 ''a b'') =
      Inr (map (\<lambda>k. format_02d k @ ''_a_b'') [1..<101])"
    by code_simp
  have e: "first_occurrences (expected_paths (replicate 100 ''a b'')) =
      map (\<lambda>k. format_02d k @ ''_a_b'') [1..<101]"
    using segment_format [of "replicate 100 ''a b''"
        "map (\<lambda>k. format_02d k @ ''_a_b'') [1..<101]"] h
    by (simp only: simp_thms)
  have f: "format_02d 7 = ''07''" "format_02d 99 = ''99''" "format_02d 100 = ''100''"
    by code_simp+
  have pl: "line_content ''a b'' = ''a b''" "line_level ''a b'' = 0" by code_simp+
  have lv: "\<forall>l\<in>set (replicate 100 ''a b''). line_content l \<noteq> [] \<longrightarrow> line_level l < 50"
    by (simp add: pl)
  from segment_format [of "replicate 100 ''a b''" "[]"] lv
  have r: "\<exists>res. parse_indented_subtags_enumerate_all (replicate 100 ''a b'') = Inr res"
    by blast
  show ?thesis
    using h1 e1 s1 h e f r by (simp only: simp_thms)
qed

section \<open>Running the enumerator on its own output\<close>

text \<open>
  C9 (as the code behaves): when the output of the enumerator is given to it again as
  lines, every path is a line at level 0 and is its own content, so the result holds, for
  the path at position \<open>i\<close>, the new counter \<open>i + 1\<close>, an underscore and the path itself,
  unchanged: the new counter is put in front of the path, the old one stays.
\<close>

theorem rerun_prefixes_counter:
  assumes "parse_indented_subtags_enumerate_all lines = Inr out"
  shows "parse_indented_subtags_enumerate_all out =
    Inr (map (\<lambda>i. format_02d (i + 1) @ ''_'' @ out ! i) [0..<length out])"
proof -
  have cl: "\<forall>p\<in>set out. clean_line p"
    using output_paths [OF assms] enumerated_path_clean by blast
  obtain st0 where "enum_loop init_state lines = Inr st0"
    and out: "out = dedup_loop (results st0) {} []"
    using assms by (auto simp: parse_indented_subtags_enumerate_all_def split: sum.splits)
  have d: "distinct out" unfolding out by (rule dedup_loop_distinct) simp_all
  have z: "counters init_state ! 0 = 0" by (simp add: init_state_def)
  from enum_loop_level0 [of init_state out] cl obtain st where s: "enum_loop init_state out = Inr st"
    and r: "results st = map (\<lambda>i. format_02d (i + 1) @ ''_'' @ out ! i) [0..<length out]"
    by (auto simp: z)
  have "dedup_loop (results st) {} [] = results st"
    unfolding r using renumbered_distinct [OF d, of 0] by (simp add: dedup_loop_id)
  then show ?thesis using s r by (simp add: parse_indented_subtags_enumerate_all_def)
qed

theorem rerun_prefixes_counter_witness:
  "parse_indented_subtags_enumerate_all [''Main Tag'', ''    Sub One''] =
     Inr [''01_Main_Tag'', ''01_Main_Tag::01_Sub_One'']
   \<and> parse_indented_subtags_enumerate_all [''01_Main_Tag'', ''01_Main_Tag::01_Sub_One''] =
     Inr [''01_01_Main_Tag'', ''02_01_Main_Tag::01_Sub_One'']"
proof -
  have h: "parse_indented_subtags_enumerate_all [''Main Tag'', ''    Sub One''] =
      Inr [''01_Main_Tag'', ''01_Main_Tag::01_Sub_One'']"
    by code_simp
  have f: "format_02d (Suc 0) = ''01''" "format_02d (Suc (Suc 0)) = ''02''" by code_simp+
  have u: "[0..<2] = [0, Suc 0]" by (simp add: upt_rec)
  show ?thesis using rerun_prefixes_counter [OF h] h by (simp add: f u)
qed

text \<open>
  C9 as the specification states it, the path unchanged but for its number at level 0,
  does not hold: \<open>01_A\<close> comes back as \<open>01_01_A\<close>, not as \<open>01_A\<close> with its counter
  exchanged.
\<close>

theorem rerun_not_unchanged_counterexample:
  "parse_indented_subtags_enumerate_all [''A''] = Inr [''01_A'']
   \<and> renumber_level0 1 ''01_A'' = ''01_A''
   \<and> parse_indented_subtags_enumerate_all [''01_A''] = Inr [''01_01_A'']
   \<and> parse_indented_subtags_enumerate_all [''01_A''] \<noteq> Inr [renumber_level0 1 ''01_A'']"
  by code_simp

section \<open>No empty path, no space\<close>

text \<open>
  C10: every string of the output is non-empty and holds no space character; the content
  of a line reaches the output with every space replaced by an underscore and every other
  character, other whitespace such as a tab inside the content included, as it is.
\<close>

theorem output_nonempty_no_space:
  "(parse_indented_subtags_enumerate_all lines = Inr out \<longrightarrow>
      (\<forall>p\<in>set out. p \<noteq> [] \<and> SPACE \<notin> set p))
   \<and> (snd (parse_indentation_level l) \<noteq> [] \<and> fst (parse_indentation_level l) < 50 \<longrightarrow>
        parse_indented_subtags_enumerate_all [l] =
          Inr [''01_'' @ map (\<lambda>ch. if ch = SPACE then UNDERSCORE else ch)
                          (snd (parse_indentation_level l))])"
proof (rule conjI)
  show "parse_indented_subtags_enumerate_all lines = Inr out \<longrightarrow>
      (\<forall>p\<in>set out. p \<noteq> [] \<and> SPACE \<notin> set p)"
  proof (intro impI ballI)
    fix p
    assume "parse_indented_subtags_enumerate_all lines = Inr out" and "p \<in> set out"
    then have "clean_line p" using output_paths enumerated_path_clean by blast
    then show "p \<noteq> [] \<and> SPACE \<notin> set p" by (simp add: clean_line_def)
  qed
next
  let ?n = "fst (parse_indentation_level l)"
  let ?name = "''01_'' @ map (\<lambda>ch. if ch = SPACE then UNDERSCORE else ch)
      (snd (parse_indentation_level l))"
  show "snd (parse_indentation_level l) \<noteq> [] \<and> ?n < 50 \<longrightarrow>
      parse_indented_subtags_enumerate_all [l] = Inr [?name]"
  proof
    assume a: "snd (parse_indentation_level l) \<noteq> [] \<and> ?n < 50"
    then have c: "snd (parse_indentation_level l) \<noteq> []" and n: "?n < 50" by simp_all
    have f: "format_02d (Suc 0) = ''01''" by code_simp
    have "\<exists>st'. enum_step init_state l = Inr st'"
      using enum_step_content [OF init_lengths(1,2) c n] by (elim exE conjE) (rule exI)
    then obtain st' where step: "enum_step init_state l = Inr st'" ..
    have z: "counters init_state ! ?n = 0" "\<forall>i<?n. levels init_state ! i = None"
      using n by (simp_all add: init_state_def)
    from enum_step_content [OF init_lengths(1,2) c n] step
    have ll': "length (levels st') = 50"
      and lv: "levels st' ! ?n = Some ?name" "\<forall>i<?n. levels st' ! i = None"
      and rs: "results st' = [py_join ''::'' (path_segments (levels st') ?n)]"
      using n z by (auto simp: f replace_spaces_with_underscores_def)
    have "path_segments (levels st') ?n = [?name]"
      using n ll' lv by (intro path_segments_alone) simp_all
    then have "results st' = [?name]" using rs by simp
    then show "parse_indented_subtags_enumerate_all [l] = Inr [?name]"
      using step by (simp add: parse_indented_subtags_enumerate_all_def)
  qed
qed

theorem output_nonempty_no_space_witness:
  "parse_indented_subtags_enumerate_all [[SPACE, SPACE, SPACE, SPACE, CHR ''a'', TAB, CHR ''b'', SPACE, CHR ''c'', SPACE]] =
     Inr [[CHR ''0'', CHR ''1'', CHR ''_'', CHR ''a'', TAB, CHR ''b'', CHR ''_'', CHR ''c'']]
   \<and> SPACE \<notin> set [CHR ''0'', CHR ''1'', CHR ''_'', CHR ''a'', TAB, CHR ''b'', CHR ''_'', CHR ''c'']
   \<and> TAB \<in> set [CHR ''0'', CHR ''1'', CHR ''_'', CHR ''a'', TAB, CHR ''b'', CHR ''_'', CHR ''c'']"
proof -
  let ?l = "[SPACE, SPACE, SPACE, SPACE, CHR ''a'', TAB, CHR ''b'', SPACE, CHR ''c'', SPACE]"
  let ?p = "[CHR ''0'', CHR ''1'', CHR ''_'', CHR ''a'', TAB, CHR ''b'', CHR ''_'', CHR ''c'']"
  have pl: "parse_indentation_level ?l = (1, [CHR ''a'', TAB, CHR ''b'', SPACE, CHR ''c''])"
    by code_simp
  have m: "''01_'' @ map (\<lambda>ch. if ch = SPACE then UNDERSCORE else ch)
      [CHR ''a'', TAB, CHR ''b'', SPACE, CHR ''c''] = ?p"
    by code_simp
  have one: "parse_indented_subtags_enumerate_all [?l] = Inr [?p]"
    using output_nonempty_no_space [of "[]" "[]" ?l] by (simp only: pl m fst_conv snd_conv) simp
  have "?p \<noteq> [] \<and> SPACE \<notin> set ?p"
    using output_nonempty_no_space [of "[?l]" "[?p]" ?l] one by simp
  then show ?thesis using one by simp
qed

end
